theory Spec2Isabelle
  imports Main
begin

section \<open>Tic-tac-toe with move history: the model of \<open>src/Game.tsx\<close>\<close>

subsection \<open>Cell values and array reads\<close>

text \<open>
  \<open>type SquareValue = "X" | "O" | null\<close>. At run time a read of a JavaScript array
  beyond its length yields \<open>undefined\<close>, and a write beyond its length leaves holes that
  read as \<open>undefined\<close>; the fourth constructor stands for that value. The initial board
  and every write of the program store only \<open>MarkX\<close> (the string "X"), \<open>MarkO\<close>
  (the string "O"; the bare name \<open>O\<close> is relation composition in HOL) or \<open>Null\<close>.
\<close>

datatype SquareValue = MarkX | MarkO | Null | Undefined

text \<open>JavaScript truthiness: the non-empty strings are truthy, \<open>null\<close> and \<open>undefined\<close> are not.\<close>

fun truthy :: "SquareValue \<Rightarrow> bool" where
  "truthy MarkX = True"
| "truthy MarkO = True"
| "truthy Null = False"
| "truthy Undefined = False"

text \<open>\<open>squares[i]\<close>: a read out of range is \<open>undefined\<close>. (The parameter is written \<open>sqs\<close>: \<open>squares\<close> is the field of a history entry below.)\<close>

definition at :: "SquareValue list \<Rightarrow> nat \<Rightarrow> SquareValue" where
  "at sqs i = (if i < length sqs then sqs ! i else Undefined)"

text \<open>\<open>squares[i] = v\<close>: a write out of range extends the array, the cells between being holes.\<close>

definition assign :: "SquareValue list \<Rightarrow> nat \<Rightarrow> SquareValue \<Rightarrow> SquareValue list" where
  "assign sqs i v =
     (if i < length sqs then sqs[i := v]
      else sqs @ replicate (i - length sqs) Undefined @ [v])"

subsection \<open>calculateWinner\<close>

record WinnerResult =
  winner :: SquareValue
  line :: "(nat \<times> nat \<times> nat) option"

definition lines :: "(nat \<times> nat \<times> nat) list" where
  "lines =
     [(0, 1, 2),
      (3, 4, 5),
      (6, 7, 8),
      (0, 3, 6),
      (1, 4, 7),
      (2, 5, 8),
      (0, 4, 8),
      (2, 4, 6)]"

text \<open>The \<open>for (const line of lines)\<close> loop, returning from inside at the first hit.\<close>

fun scanLines :: "SquareValue list \<Rightarrow> (nat \<times> nat \<times> nat) list \<Rightarrow> WinnerResult" where
  "scanLines sqs [] = \<lparr>winner = Null, line = None\<rparr>"
| "scanLines sqs ((a, b, c) # rest) =
     (if truthy (at sqs a) \<and> at sqs a = at sqs b \<and> at sqs a = at sqs c
      then \<lparr>winner = at sqs a, line = Some (a, b, c)\<rparr>
      else scanLines sqs rest)"

definition calculateWinner :: "SquareValue list \<Rightarrow> WinnerResult" where
  "calculateWinner sqs = scanLines sqs lines"

subsection \<open>Errors, history entries and decimal numbers\<close>

text \<open>Reading a property of \<open>undefined\<close> throws a \<open>TypeError\<close>; it is the only exception \<open>Game.tsx\<close> can raise.\<close>

datatype error = TypeError

record HistoryEntry =
  squares :: "SquareValue list"

text \<open>\<open>history[k]\<close> on an array of objects: \<open>None\<close> is \<open>undefined\<close>.\<close>

definition entryAt :: "HistoryEntry list \<Rightarrow> nat \<Rightarrow> HistoryEntry option" where
  "entryAt h k = (if k < length h then Some (h ! k) else None)"

text \<open>A non-negative integer inside a template literal: its decimal digits.\<close>

definition digit :: "nat \<Rightarrow> char" where
  "digit d = ''0123456789'' ! d"

function showNat :: "nat \<Rightarrow> string" where
  "showNat n = (if n < 10 then [digit n] else showNat (n div 10) @ [digit (n mod 10)])"
  by pat_completeness auto
termination
  by (relation "measure id") auto

subsection \<open>getMoveLocation\<close>

text \<open>The \<open>for (let i = 0; i < curr.length; i++)\<close> loop, entered at \<open>i\<close>; \<open>cur\<close> is the source's \<open>curr\<close>.\<close>

function firstDiff :: "SquareValue list \<Rightarrow> SquareValue list \<Rightarrow> nat \<Rightarrow> string option" where
  "firstDiff cur prev i =
     (if i < length cur then
        (if at cur i \<noteq> at prev i
         then Some (''('' @ showNat (i div 3 + 1) @ '', '' @ showNat (i mod 3 + 1) @ '')'')
         else firstDiff cur prev (i + 1))
      else None)"
  by pat_completeness auto
termination
  by (relation "measure (\<lambda>(cur, prev, i). length cur - i)") auto

definition getMoveLocation :: "HistoryEntry list \<Rightarrow> nat \<Rightarrow> error + string option" where
  "getMoveLocation h move =
     (if move = 0 then Inr None
      else case entryAt h (move - 1) of
             None \<Rightarrow> Inl TypeError
           | Some p \<Rightarrow>
               (case entryAt h move of
                  None \<Rightarrow> Inl TypeError
                | Some c \<Rightarrow> Inr (firstDiff (squares c) (squares p) 0)))"

subsection \<open>The state of Game and its three handlers\<close>

record GameState =
  history :: "HistoryEntry list"
  stepNumber :: nat
  xIsNext :: bool
  isAscending :: bool

definition initialState :: GameState where
  "initialState =
     \<lparr>history = [\<lparr>squares = replicate 9 Null\<rparr>],
      stepNumber = 0, xIsNext = True, isAscending = True\<rparr>"

text \<open>
  \<open>handleClick\<close> is a closure of one render of \<open>Game\<close>: \<open>winner\<close> is the value that render
  computed from \<open>history[stepNumber].squares\<close>, and a render whose \<open>history[stepNumber]\<close> is
  \<open>undefined\<close> throws before any handler exists. The three setters take effect together in
  the next render. With \<open>hist\<close> empty, \<open>hist.length - 1\<close> is \<open>-1\<close> and the read is
  \<open>undefined\<close>, as \<open>entryAt [] 0\<close> is.
\<close>

definition handleClick :: "GameState \<Rightarrow> nat \<Rightarrow> error + GameState" where
  "handleClick s i =
     (case entryAt (history s) (stepNumber s) of
        None \<Rightarrow> Inl TypeError
      | Some rendered \<Rightarrow>
          (let w = winner (calculateWinner (squares rendered));
               hist = take (stepNumber s + 1) (history s)
           in case entryAt hist (length hist - 1) of
                None \<Rightarrow> Inl TypeError
              | Some current \<Rightarrow>
                  (let sqs = squares current in
                   if truthy w \<or> truthy (at sqs i) then Inr s
                   else Inr (s\<lparr>history :=
                                 hist @ [\<lparr>squares = assign sqs i (if xIsNext s then MarkX else MarkO)\<rparr>],
                               stepNumber := length hist,
                               xIsNext := \<not> xIsNext s\<rparr>))))"

definition jumpTo :: "GameState \<Rightarrow> nat \<Rightarrow> GameState" where
  "jumpTo s step = s\<lparr>stepNumber := step, xIsNext := (step mod 2 = 0)\<rparr>"

text \<open>The sort button's \<open>onClick\<close>: \<open>setIsAscending(!isAscending)\<close>.\<close>

definition toggleSort :: "GameState \<Rightarrow> GameState" where
  "toggleSort s = s\<lparr>isAscending := \<not> isAscending s\<rparr>"

subsection \<open>What a render shows\<close>

text \<open>
  A list item of the move list: the bold text of the current move, or a button with its
  label and the step its \<open>onClick\<close> passes to \<open>jumpTo\<close>.
\<close>

datatype MoveItem = Here string | GoTo string nat

definition moveItem :: "HistoryEntry list \<Rightarrow> nat \<Rightarrow> nat \<Rightarrow> error + MoveItem" where
  "moveItem h step move =
     (case getMoveLocation h move of
        Inl e \<Rightarrow> Inl e
      | Inr location \<Rightarrow>
          (let loc = (case location of None \<Rightarrow> [] | Some l \<Rightarrow> l) in
           if move = step
           then Inr (Here (''You are at move #'' @ showNat move @ '' '' @ loc))
           else Inr (GoTo (if move \<noteq> 0 then ''Go to move #'' @ showNat move @ '' '' @ loc
                           else ''Go to game start'') move)))"

text \<open>\<open>history.map\<close> calls its function index by index; the first throw ends the render.\<close>

fun collect :: "(error + 'a) list \<Rightarrow> error + 'a list" where
  "collect [] = Inr []"
| "collect (Inl e # rest) = Inl e"
| "collect (Inr x # rest) = (case collect rest of Inl e \<Rightarrow> Inl e | Inr xs \<Rightarrow> Inr (x # xs))"

definition moves :: "HistoryEntry list \<Rightarrow> nat \<Rightarrow> error + MoveItem list" where
  "moves h step = collect (map (moveItem h step) [0..<length h])"

definition sortedMoves :: "bool \<Rightarrow> MoveItem list \<Rightarrow> MoveItem list" where
  "sortedMoves ascending ms = (if ascending then ms else rev ms)"

text \<open>A cell value inside a template literal.\<close>

fun showValue :: "SquareValue \<Rightarrow> string" where
  "showValue MarkX = ''X''"
| "showValue MarkO = ''O''"
| "showValue Null = ''null''"
| "showValue Undefined = ''undefined''"

definition status :: "SquareValue \<Rightarrow> nat \<Rightarrow> bool \<Rightarrow> string" where
  "status w step xNext =
     (if truthy w then ''Winner: '' @ showValue w
      else if step = 9 then ''It's a draw!''
      else ''Next player: '' @ (if xNext then ''X'' else ''O''))"

record View =
  boardSquares :: "SquareValue list"
  winningSquares :: "(nat \<times> nat \<times> nat) option"
  statusText :: string
  sortLabel :: string
  moveList :: "MoveItem list"

definition Game :: "GameState \<Rightarrow> error + View" where
  "Game s =
     (case entryAt (history s) (stepNumber s) of
        None \<Rightarrow> Inl TypeError
      | Some current \<Rightarrow>
          (let r = calculateWinner (squares current) in
           case moves (history s) (stepNumber s) of
             Inl e \<Rightarrow> Inl e
           | Inr ms \<Rightarrow>
               Inr \<lparr>boardSquares = squares current,
                    winningSquares = line r,
                    statusText = status (winner r) (stepNumber s) (xIsNext s),
                    sortLabel = ''Sort '' @ (if isAscending s then ''Descending'' else ''Ascending''),
                    moveList = sortedMoves (isAscending s) ms\<rparr>))"

subsection \<open>User events and the states they reach\<close>

text \<open>
  The three inbound events. \<open>Board\<close> renders the squares \<open>row * 3 + col\<close> for
  \<open>row, col < 3\<close>, so a cell click carries an index below 9; the move list has one entry
  per index of \<open>history\<close>, so a jump carries an index below its length.
\<close>

datatype event = CellClick nat | HistoryClick nat | SortClick

fun offered :: "GameState \<Rightarrow> event \<Rightarrow> bool" where
  "offered s (CellClick i) = (i < 9)"
| "offered s (HistoryClick m) = (m < length (history s))"
| "offered s SortClick = True"

fun fire :: "GameState \<Rightarrow> event \<Rightarrow> error + GameState" where
  "fire s (CellClick i) = handleClick s i"
| "fire s (HistoryClick m) = Inr (jumpTo s m)"
| "fire s SortClick = Inr (toggleSort s)"

text \<open>
  Running a sequence of events from a state: \<open>None\<close> when an event is not one the
  interface offers in the state it arrives in, or when a handler throws.
\<close>

fun run :: "GameState \<Rightarrow> event list \<Rightarrow> GameState option" where
  "run s [] = Some s"
| "run s (e # es) =
     (if offered s e
      then (case fire s e of Inl err \<Rightarrow> None | Inr s' \<Rightarrow> run s' es)
      else None)"

subsection \<open>Predicates used to state the properties\<close>

text \<open>
  The specification's winning line, in its words: all three cells of the line are
  non-empty and equal. It reads the board with plain indexing.
\<close>

definition threeInLine :: "SquareValue list \<Rightarrow> nat \<times> nat \<times> nat \<Rightarrow> bool" where
  "threeInLine sqs l =
     (case l of (a, b, c) \<Rightarrow>
        sqs ! a \<in> {MarkX, MarkO} \<and> sqs ! a = sqs ! b \<and> sqs ! a = sqs ! c)"

text \<open>The condition of the \<open>if\<close> inside the loop of \<open>calculateWinner\<close>, as the source writes it.\<close>

definition lineHit :: "SquareValue list \<Rightarrow> nat \<times> nat \<times> nat \<Rightarrow> bool" where
  "lineHit sqs l =
     (case l of (a, b, c) \<Rightarrow> truthy (at sqs a) \<and> at sqs a = at sqs b \<and> at sqs a = at sqs c)"

text \<open>
  The invariant of the reachable states. A snapshot at index \<open>k\<close> has 9 cells, none
  of them \<open>undefined\<close>, and \<open>k\<close> marks.
\<close>

definition snapshotOk :: "nat \<Rightarrow> HistoryEntry \<Rightarrow> bool" where
  "snapshotOk k e \<longleftrightarrow>
     length (squares e) = 9 \<and> Undefined \<notin> set (squares e) \<and>
     length (filter truthy (squares e)) = k"

definition wellFormed :: "GameState \<Rightarrow> bool" where
  "wellFormed s \<longleftrightarrow>
     stepNumber s < length (history s) \<and>
     xIsNext s = even (stepNumber s) \<and>
     squares (history s ! 0) = replicate 9 Null \<and>
     (\<forall>k < length (history s). snapshotOk k (history s ! k))"

text \<open>
  The defining equations of the two loops rewrite a call into a term that holds the
  same call again, so they are applied by hand.
\<close>

declare firstDiff.simps [simp del]

declare showNat.simps [simp del]

section \<open>Properties\<close>

subsection \<open>The winner detector\<close>

lemma truthy_iff: "truthy v \<longleftrightarrow> v = MarkX \<or> v = MarkO"
  by (cases v) simp_all

lemma lines_below_9: "(a, b, c) \<in> set lines \<Longrightarrow> a < 9 \<and> b < 9 \<and> c < 9"
  by (auto simp: lines_def)

lemma scanLines_Cons:
  "scanLines sqs (l # rest) =
     (if lineHit sqs l then \<lparr>winner = at sqs (fst l), line = Some l\<rparr> else scanLines sqs rest)"
  by (cases l) (simp only: scanLines.simps lineHit_def prod.case fst_conv)

lemma scanLines_miss:
  "\<forall>l \<in> set ls. \<not> lineHit sqs l \<Longrightarrow> scanLines sqs ls = \<lparr>winner = Null, line = None\<rparr>"
  by (induction ls) (simp_all add: scanLines_Cons)

lemma scanLines_hit:
  "\<forall>l \<in> set pre. \<not> lineHit sqs l \<Longrightarrow> lineHit sqs l
   \<Longrightarrow> scanLines sqs (pre @ l # post) = \<lparr>winner = at sqs (fst l), line = Some l\<rparr>"
  by (induction pre) (simp_all add: scanLines_Cons)

lemma threeInLine_lineHit:
  assumes "length sqs = 9" "l \<in> set lines"
  shows "threeInLine sqs l \<longleftrightarrow> lineHit sqs l"
proof -
  obtain a b c where l: "l = (a, b, c)" by (cases l) auto
  with assms(2) have "a < 9 \<and> b < 9 \<and> c < 9" using lines_below_9 by blast
  with assms(1) l show ?thesis
    by (simp add: threeInLine_def lineHit_def at_def truthy_iff)
qed

text \<open>
  Claim C1. On every board of 9 cells, \<open>calculateWinner\<close> goes through 8 fixed lines
  (the 3 rows, the 3 columns and the 2 diagonals) in the order of the list \<open>lines\<close>.
  If some line has three non-empty equal cells, the result is the symbol on the first
  such line of the list together with that line; if no line has, the result is no
  winner: the symbol and the line are both absent.
\<close>

theorem calculateWinner_first_line:
  assumes "length sqs = 9"
  shows "length lines = 8 \<and>
         set lines = (\<lambda>r. (3 * r, 3 * r + 1, 3 * r + 2)) ` {0, 1, 2}
                   \<union> (\<lambda>c. (c, c + 3, c + 6)) ` {0, 1, 2}
                   \<union> {(0, 4, 8), (2, 4, 6)} \<and>
         (lines = pre @ l # post \<and> threeInLine sqs l \<and> (\<forall>l' \<in> set pre. \<not> threeInLine sqs l')
            \<longrightarrow> calculateWinner sqs = \<lparr>winner = sqs ! fst l, line = Some l\<rparr>) \<and>
         ((\<forall>l \<in> set lines. \<not> threeInLine sqs l)
            \<longrightarrow> calculateWinner sqs = \<lparr>winner = Null, line = None\<rparr>)"
proof (intro conjI impI)
  show "length lines = 8" by (simp add: lines_def)
  show "set lines = (\<lambda>r. (3 * r, 3 * r + 1, 3 * r + 2)) ` {0, 1, 2}
                   \<union> (\<lambda>c. (c, c + 3, c + 6)) ` {0, 1, 2}
                   \<union> {(0, 4, 8), (2, 4, 6)}"
    by (simp add: lines_def insert_commute numeral_2_eq_2)
next
  assume h: "lines = pre @ l # post \<and> threeInLine sqs l \<and> (\<forall>l' \<in> set pre. \<not> threeInLine sqs l')"
  then have L: "lines = pre @ l # post" by blast
  have mem: "l \<in> set lines" by (subst L) simp
  have sub: "set pre \<subseteq> set lines" by (subst L) auto
  have pre: "\<forall>l' \<in> set pre. \<not> lineHit sqs l'"
    using h sub assms threeInLine_lineHit by blast
  have hit: "lineHit sqs l"
    using h mem assms threeInLine_lineHit by blast
  have "fst l < 9" using lines_below_9 mem by (cases l) auto
  with assms have "at sqs (fst l) = sqs ! fst l" by (simp add: at_def)
  with scanLines_hit[OF pre hit, of post]
  show "calculateWinner sqs = \<lparr>winner = sqs ! fst l, line = Some l\<rparr>"
    unfolding calculateWinner_def by (subst L) simp
next
  assume h: "\<forall>l \<in> set lines. \<not> threeInLine sqs l"
  have "\<forall>l \<in> set lines. \<not> lineHit sqs l"
    using h assms threeInLine_lineHit by blast
  then show "calculateWinner sqs = \<lparr>winner = Null, line = None\<rparr>"
    unfolding calculateWinner_def by (rule scanLines_miss)
qed

theorem calculateWinner_first_line_witness:
  "length [MarkX, MarkO, MarkO, MarkX, MarkX, Null, MarkX, Null, MarkX] = 9 \<and>
   lines = [(0, 1, 2), (3, 4, 5), (6, 7, 8)] @ (0, 3, 6) # [(1, 4, 7), (2, 5, 8), (0, 4, 8), (2, 4, 6)] \<and>
   threeInLine [MarkX, MarkO, MarkO, MarkX, MarkX, Null, MarkX, Null, MarkX] (0, 3, 6) \<and>
   threeInLine [MarkX, MarkO, MarkO, MarkX, MarkX, Null, MarkX, Null, MarkX] (0, 4, 8) \<and>
   calculateWinner [MarkX, MarkO, MarkO, MarkX, MarkX, Null, MarkX, Null, MarkX]
     = \<lparr>winner = MarkX, line = Some (0, 3, 6)\<rparr> \<and>
   calculateWinner [MarkX, MarkO, MarkX, MarkX, MarkO, MarkO, MarkO, MarkX, MarkX]
     = \<lparr>winner = Null, line = None\<rparr>"
  using calculateWinner_first_line
          [of "[MarkX, MarkO, MarkO, MarkX, MarkX, Null, MarkX, Null, MarkX]"
              "[(0, 1, 2), (3, 4, 5), (6, 7, 8)]" "(0, 3, 6)"
              "[(1, 4, 7), (2, 5, 8), (0, 4, 8), (2, 4, 6)]"]
        calculateWinner_first_line
          [of "[MarkX, MarkO, MarkX, MarkX, MarkO, MarkO, MarkO, MarkX, MarkX]"]
  by (simp add: lines_def threeInLine_def)

lemma lineHit_truthy: "lineHit sqs l \<Longrightarrow> truthy (at sqs (fst l))"
proof (cases l)
  case (fields a b c)
  assume h: "lineHit sqs l"
  from h[unfolded lineHit_def fields prod.case] have "truthy (at sqs a)"
    by (rule conjunct1)
  then show ?thesis unfolding fields fst_conv .
qed

lemma scanLines_winner: "winner (scanLines sqs ls) = Null \<or> truthy (winner (scanLines sqs ls))"
  by (induction ls) (simp_all add: scanLines_Cons lineHit_truthy)

lemma winner_Null_or_truthy:
  "winner (calculateWinner sqs) \<noteq> Null \<longleftrightarrow> truthy (winner (calculateWinner sqs))"
  using scanLines_winner[of sqs lines] by (auto simp: calculateWinner_def)

subsection \<open>Reachable states\<close>

lemma handleClick_in_range:
  assumes "stepNumber s < length (history s)"
  shows "handleClick s i =
     (if truthy (winner (calculateWinner (squares (history s ! stepNumber s))))
         \<or> truthy (at (squares (history s ! stepNumber s)) i)
      then Inr s
      else Inr (s\<lparr>history := take (Suc (stepNumber s)) (history s) @
                     [\<lparr>squares = assign (squares (history s ! stepNumber s)) i
                                   (if xIsNext s then MarkX else MarkO)\<rparr>],
                  stepNumber := Suc (stepNumber s),
                  xIsNext := \<not> xIsNext s\<rparr>))"
proof -
  from assms have len: "length (take (stepNumber s + 1) (history s)) = Suc (stepNumber s)"
    by simp
  from assms have nth: "take (stepNumber s + 1) (history s) ! stepNumber s = history s ! stepNumber s"
    by simp
  show ?thesis
    using assms len nth by (simp add: handleClick_def entryAt_def Let_def)
qed

lemma count_truthy_update:
  "i < length xs \<Longrightarrow> \<not> truthy (xs ! i) \<Longrightarrow> truthy v
   \<Longrightarrow> length (filter truthy (xs[i := v])) = Suc (length (filter truthy xs))"
  by (induction xs arbitrary: i) (auto split: nat.splits)

lemma wellFormed_initial: "wellFormed initialState"
  by (simp add: wellFormed_def initialState_def snapshotOk_def)

lemma wellFormed_jumpTo:
  "wellFormed s \<Longrightarrow> m < length (history s) \<Longrightarrow> wellFormed (jumpTo s m)"
  by (simp add: wellFormed_def jumpTo_def even_iff_mod_2_eq_zero)

lemma wellFormed_toggleSort: "wellFormed s \<Longrightarrow> wellFormed (toggleSort s)"
  by (simp add: wellFormed_def toggleSort_def)

lemma snapshotOk_move:
  assumes ok: "snapshotOk n e" and i: "i < 9" and free: "\<not> truthy (at (squares e) i)"
    and v: "v = MarkX \<or> v = MarkO"
  shows "snapshotOk (Suc n) \<lparr>squares = assign (squares e) i v\<rparr>"
proof -
  from ok i have len: "i < length (squares e)" by (simp add: snapshotOk_def)
  then have a: "assign (squares e) i v = (squares e)[i := v]" by (simp add: assign_def)
  from len free have f: "\<not> truthy (squares e ! i)" by (simp add: at_def)
  from v have tv: "truthy v" by (simp add: truthy_iff)
  have "set ((squares e)[i := v]) \<subseteq> insert v (set (squares e))" by (rule set_update_subset_insert)
  with ok v have "Undefined \<notin> set ((squares e)[i := v])" by (auto simp: snapshotOk_def)
  moreover have "length (filter truthy ((squares e)[i := v])) = Suc n"
    using count_truthy_update[OF len f tv] ok by (simp add: snapshotOk_def)
  ultimately show ?thesis using ok a by (simp add: snapshotOk_def)
qed

lemma wellFormed_handleClick:
  assumes wf: "wellFormed s" and i: "i < 9" and h: "handleClick s i = Inr s'"
  shows "wellFormed s'"
proof -
  let ?n = "stepNumber s"
  let ?cur = "history s ! ?n"
  from wf have n: "?n < length (history s)" by (simp add: wellFormed_def)
  show ?thesis
  proof (cases "truthy (winner (calculateWinner (squares ?cur))) \<or> truthy (at (squares ?cur) i)")
    case True
    with h n have "s' = s" by (simp add: handleClick_in_range)
    with wf show ?thesis by simp
  next
    case False
    define e where "e = \<lparr>squares = assign (squares ?cur) i (if xIsNext s then MarkX else MarkO)\<rparr>"
    from False h n have s': "s' = s\<lparr>history := take (Suc ?n) (history s) @ [e],
                  stepNumber := Suc ?n, xIsNext := \<not> xIsNext s\<rparr>"
      by (simp add: handleClick_in_range e_def)
    from wf n have cur: "snapshotOk ?n ?cur" by (simp add: wellFormed_def)
    have e: "snapshotOk (Suc ?n) e"
      unfolding e_def using cur i False by (intro snapshotOk_move) auto
    have len: "length (history s') = Suc (Suc ?n)" using n s' by simp
    have nth: "history s' ! k = (if k \<le> ?n then history s ! k else e)" if "k < Suc (Suc ?n)" for k
      using that n s' by (auto simp: nth_append)
    have all: "\<forall>k < length (history s'). snapshotOk k (history s' ! k)"
    proof (intro allI impI)
      fix k assume "k < length (history s')"
      with len have k: "k < Suc (Suc ?n)" by simp
      show "snapshotOk k (history s' ! k)"
      proof (cases "k \<le> ?n")
        case True
        with wf n have "snapshotOk k (history s ! k)" by (simp add: wellFormed_def)
        with True k show ?thesis by (simp add: nth)
      next
        case False
        with k have "k = Suc ?n" by simp
        with e k show ?thesis by (simp add: nth)
      qed
    qed
    have zero: "squares (history s' ! 0) = replicate 9 Null"
      using wf nth[of 0] by (simp add: wellFormed_def)
    from wf have "xIsNext s' = even (stepNumber s')" using s' by (simp add: wellFormed_def)
    with all zero len s' show ?thesis by (simp add: wellFormed_def)
  qed
qed

lemma wellFormed_fire:
  "wellFormed s \<Longrightarrow> offered s e \<Longrightarrow> fire s e = Inr s' \<Longrightarrow> wellFormed s'"
  by (cases e) (auto intro: wellFormed_handleClick wellFormed_jumpTo wellFormed_toggleSort)

lemma wellFormed_run:
  "wellFormed s \<Longrightarrow> run s es = Some s' \<Longrightarrow> wellFormed s'"
proof (induction es arbitrary: s)
  case Nil
  then show ?case by simp
next
  case (Cons e es)
  from Cons.prems(2) obtain t where t: "offered s e" "fire s e = Inr t" "run t es = Some s'"
    by (auto split: if_splits sum.splits)
  from wellFormed_fire[OF Cons.prems(1) t(1,2)] have "wellFormed t" .
  with Cons.IH t(3) show ?case by blast
qed

lemma reachable_wellFormed: "run initialState es = Some s \<Longrightarrow> wellFormed s"
  using wellFormed_initial wellFormed_run by blast

subsection \<open>Moves\<close>

text \<open>
  Claim C2. In every state reached from the initial one by cell clicks, in-range jumps
  and sort toggles, if the displayed snapshot has no winner and cell \<open>i\<close> of it is
  empty, a click on \<open>i\<close> returns a state whose history is the first
  \<open>stepNumber + 1\<close> entries of the old one followed by exactly one new snapshot: the
  displayed snapshot with cell \<open>i\<close> set to X when the step is even and to O when it
  is odd. The step becomes the last index of the new history, the turn flips and the
  sort flag stays. Jumping and toggling the sort order leave the history as it is.
\<close>

theorem handleClick_appends:
  assumes "run initialState es = Some s"
    and "winner (calculateWinner (squares (history s ! stepNumber s))) = Null"
    and "i < 9"
    and "squares (history s ! stepNumber s) ! i = Null"
  shows "\<exists>s'. handleClick s i = Inr s' \<and>
           history s' = take (stepNumber s + 1) (history s) @
             [\<lparr>squares = (squares (history s ! stepNumber s))
                           [i := (if even (stepNumber s) then MarkX else MarkO)]\<rparr>] \<and>
           length (take (stepNumber s + 1) (history s)) = stepNumber s + 1 \<and>
           stepNumber s' = length (history s') - 1 \<and>
           stepNumber s' = stepNumber s + 1 \<and>
           xIsNext s' = (\<not> xIsNext s) \<and>
           isAscending s' = isAscending s \<and>
           history (jumpTo s k) = history s \<and>
           history (toggleSort s) = history s"
proof -
  from reachable_wellFormed[OF assms(1)] have wf: "wellFormed s" .
  then have n: "stepNumber s < length (history s)" by (simp add: wellFormed_def)
  with wf have len: "length (squares (history s ! stepNumber s)) = 9"
    by (simp add: wellFormed_def snapshotOk_def)
  with assms(3,4) have free: "\<not> truthy (at (squares (history s ! stepNumber s)) i)"
    by (simp add: at_def)
  from assms(2) have nowin: "\<not> truthy (winner (calculateWinner (squares (history s ! stepNumber s))))"
    by simp
  from len assms(3) have asg: "assign (squares (history s ! stepNumber s)) i v
      = (squares (history s ! stepNumber s))[i := v]" for v
    by (simp add: assign_def)
  from wf have par: "xIsNext s = even (stepNumber s)" by (simp add: wellFormed_def)
  show ?thesis
    using n free nowin asg par
    by (simp add: handleClick_in_range jumpTo_def toggleSort_def)
qed

theorem handleClick_appends_witness:
  "map_option
     (\<lambda>s. (length (history s), stepNumber s,
           winner (calculateWinner (squares (history s ! stepNumber s))),
           squares (history s ! stepNumber s) ! 8,
           map_sum id (\<lambda>s'. (map squares (history s'), stepNumber s', xIsNext s')) (handleClick s 8)))
     (run initialState [CellClick 0, CellClick 4, CellClick 1, HistoryClick 1])
   = Some (4, 1, Null, Null,
           Inr ([[Null, Null, Null, Null, Null, Null, Null, Null, Null],
                 [MarkX, Null, Null, Null, Null, Null, Null, Null, Null],
                 [MarkX, Null, Null, Null, Null, Null, Null, Null, MarkO]], 2, True))"
proof -
  define s where "s = the (run initialState [CellClick 0, CellClick 4, CellClick 1, HistoryClick 1])"
  have r: "run initialState [CellClick 0, CellClick 4, CellClick 1, HistoryClick 1] = Some s"
    unfolding s_def by code_simp
  have w: "winner (calculateWinner (squares (history s ! stepNumber s))) = Null"
    unfolding s_def by code_simp
  have i: "(8::nat) < 9" by simp
  have c: "squares (history s ! stepNumber s) ! 8 = Null"
    unfolding s_def by code_simp
  from handleClick_appends[OF r w i c] obtain s' where s':
    "handleClick s 8 = Inr s'"
    "history s' = take (stepNumber s + 1) (history s) @
       [\<lparr>squares = (squares (history s ! stepNumber s))
                     [8 := (if even (stepNumber s) then MarkX else MarkO)]\<rparr>]"
    "stepNumber s' = stepNumber s + 1"
    "xIsNext s' = (\<not> xIsNext s)"
    by blast
  have e: "length (history s) = 4" "stepNumber s = 1" "xIsNext s = False"
    "map squares (take (stepNumber s + 1) (history s) @
       [\<lparr>squares = (squares (history s ! stepNumber s))
                     [8 := (if even (stepNumber s) then MarkX else MarkO)]\<rparr>])
     = [[Null, Null, Null, Null, Null, Null, Null, Null, Null],
        [MarkX, Null, Null, Null, Null, Null, Null, Null, Null],
        [MarkX, Null, Null, Null, Null, Null, Null, Null, MarkO]]"
    unfolding s_def by code_simp+
  from r w c s' e show ?thesis by simp
qed

text \<open>
  Claim C3. In every reachable state, a click while the displayed snapshot has a winner
  (at any index), and a click on an occupied cell, return the state they were given:
  history, step, turn and sort flag are all unchanged.
\<close>

theorem handleClick_ignored:
  assumes "run initialState es = Some s"
  shows "(winner (calculateWinner (squares (history s ! stepNumber s))) \<noteq> Null
            \<longrightarrow> handleClick s i = Inr s) \<and>
         (i < 9 \<and> squares (history s ! stepNumber s) ! i \<in> {MarkX, MarkO}
            \<longrightarrow> handleClick s i = Inr s)"
proof -
  from reachable_wellFormed[OF assms] have wf: "wellFormed s" .
  then have n: "stepNumber s < length (history s)" by (simp add: wellFormed_def)
  with wf have "length (squares (history s ! stepNumber s)) = 9"
    by (simp add: wellFormed_def snapshotOk_def)
  then have "i < 9 \<Longrightarrow> at (squares (history s ! stepNumber s)) i = squares (history s ! stepNumber s) ! i"
    by (simp add: at_def)
  then show ?thesis
    using n winner_Null_or_truthy[of "squares (history s ! stepNumber s)"]
    by (auto simp: handleClick_in_range truthy_iff)
qed

theorem handleClick_ignored_witness:
  "map_option
     (\<lambda>s. (winner (calculateWinner (squares (history s ! stepNumber s))),
           squares (history s ! stepNumber s) ! 8, handleClick s 8 = Inr s))
     (run initialState [CellClick 0, CellClick 4, CellClick 1, CellClick 7, CellClick 2])
   = Some (MarkX, Null, True) \<and>
   map_option
     (\<lambda>s. (winner (calculateWinner (squares (history s ! stepNumber s))),
           squares (history s ! stepNumber s) ! 0, handleClick s 0 = Inr s))
     (run initialState [CellClick 0])
   = Some (Null, MarkX, True)"
proof -
  define s where
    "s = the (run initialState [CellClick 0, CellClick 4, CellClick 1, CellClick 7, CellClick 2])"
  define t where "t = the (run initialState [CellClick 0])"
  have rs: "run initialState [CellClick 0, CellClick 4, CellClick 1, CellClick 7, CellClick 2] = Some s"
    unfolding s_def by code_simp
  have rt: "run initialState [CellClick 0] = Some t"
    unfolding t_def by code_simp
  have ws: "winner (calculateWinner (squares (history s ! stepNumber s))) = MarkX"
    and cs: "squares (history s ! stepNumber s) ! 8 = Null"
    unfolding s_def by code_simp+
  have wt: "winner (calculateWinner (squares (history t ! stepNumber t))) = Null"
    and ct: "squares (history t ! stepNumber t) ! 0 = MarkX"
    unfolding t_def by code_simp+
  from handleClick_ignored[OF rs, of 8] ws have "handleClick s 8 = Inr s" by simp
  moreover from handleClick_ignored[OF rt, of 0] ct have "handleClick t 0 = Inr t" by simp
  ultimately show ?thesis using rs rt ws cs wt ct by simp
qed

text \<open>
  Claim C4. In every reachable state the stored turn flag agrees with the parity of the
  step: X is next exactly when \<open>stepNumber\<close> is even.
\<close>

theorem turn_is_step_parity:
  assumes "run initialState es = Some s"
  shows "xIsNext s \<longleftrightarrow> even (stepNumber s)"
  using reachable_wellFormed[OF assms] by (simp add: wellFormed_def)

theorem turn_is_step_parity_witness:
  "map_option (\<lambda>s. (stepNumber s, xIsNext s, length (history s)))
     (run initialState [CellClick 0, CellClick 4, CellClick 1, HistoryClick 1, SortClick])
   = Some (1, False, 4)"
proof -
  define s where
    "s = the (run initialState [CellClick 0, CellClick 4, CellClick 1, HistoryClick 1, SortClick])"
  have r: "run initialState [CellClick 0, CellClick 4, CellClick 1, HistoryClick 1, SortClick] = Some s"
    unfolding s_def by code_simp
  have e: "stepNumber s = 1" "length (history s) = 4"
    unfolding s_def by code_simp+
  from turn_is_step_parity[OF r] e have "xIsNext s = False" by simp
  with r e show ?thesis by simp
qed

subsection \<open>Jumps\<close>

text \<open>
  Claim C6. For every state and every step index \<open>k\<close>, jumping to \<open>k\<close> sets the step to
  \<open>k\<close> and the turn flag to the parity of \<open>k\<close>, and leaves the history (contents and
  length) and the sort flag as they were.
\<close>

theorem jumpTo_frame:
  "stepNumber (jumpTo s k) = k \<and>
   (xIsNext (jumpTo s k) \<longleftrightarrow> even k) \<and>
   history (jumpTo s k) = history s \<and>
   isAscending (jumpTo s k) = isAscending s"
  by (simp add: jumpTo_def even_iff_mod_2_eq_zero)

subsection \<open>The move-location resolver\<close>

lemma firstDiff_found:
  "i \<le> k \<Longrightarrow> k < length cur \<Longrightarrow> at cur k \<noteq> at prev k
   \<Longrightarrow> (\<forall>j. i \<le> j \<and> j < k \<longrightarrow> at cur j = at prev j)
   \<Longrightarrow> firstDiff cur prev i
       = Some (''('' @ showNat (k div 3 + 1) @ '', '' @ showNat (k mod 3 + 1) @ '')'')"
proof (induction cur prev i rule: firstDiff.induct)
  case (1 cur prev i)
  show ?case
  proof (cases "i = k")
    case True
    with "1.prems" show ?thesis by (simp add: firstDiff.simps[of cur prev k])
  next
    case False
    with "1.prems" have lt: "i < k" and same: "at cur i = at prev i" by auto
    with "1.prems" have "firstDiff cur prev (i + 1)
        = Some (''('' @ showNat (k div 3 + 1) @ '', '' @ showNat (k mod 3 + 1) @ '')'')"
      by (intro "1.IH") auto
    with lt same "1.prems" show ?thesis by (simp add: firstDiff.simps[of cur prev i])
  qed
qed

lemma firstDiff_none:
  "(\<forall>j. i \<le> j \<and> j < length cur \<longrightarrow> at cur j = at prev j) \<Longrightarrow> firstDiff cur prev i = None"
proof (induction cur prev i rule: firstDiff.induct)
  case (1 cur prev i)
  show ?case
  proof (cases "i < length cur")
    case True
    with "1.prems" have same: "at cur i = at prev i" by auto
    from True same "1.prems" have "firstDiff cur prev (i + 1) = None"
      by (intro "1.IH") auto
    with True same show ?thesis by (simp add: firstDiff.simps[of cur prev i])
  next
    case False
    then show ?thesis by (simp add: firstDiff.simps[of cur prev i])
  qed
qed

text \<open>
  Beyond the history the resolver throws: \<open>history[move]\<close> is \<open>undefined\<close> there. The
  move list only asks for the indices of the history.
\<close>

lemma getMoveLocation_throws:
  assumes "0 < m" and "length h \<le> m"
  shows "getMoveLocation h m = Inl TypeError"
  using assms by (simp add: getMoveLocation_def entryAt_def split: option.splits)

text \<open>
  Claim C7. For move index 0 the resolver returns no location. For a move index
  \<open>m > 0\<close> of the history, if \<open>i\<close> is the first index at which snapshot \<open>m\<close> differs
  from snapshot \<open>m - 1\<close>, the resolver returns the text "(row, column)" with the
  1-based row \<open>i div 3 + 1\<close> and column \<open>i mod 3 + 1\<close>; if no cell of snapshot \<open>m\<close>
  differs, it returns no location.
\<close>

theorem getMoveLocation_first_difference:
  "getMoveLocation h 0 = Inr None \<and>
   (0 < m \<and> m < length h \<and> i < length (squares (h ! m)) \<and>
    squares (h ! m) ! i \<noteq> at (squares (h ! (m - 1))) i \<and>
    (\<forall>j < i. squares (h ! m) ! j = at (squares (h ! (m - 1))) j)
      \<longrightarrow> getMoveLocation h m
            = Inr (Some (''('' @ showNat (i div 3 + 1) @ '', '' @ showNat (i mod 3 + 1) @ '')''))) \<and>
   (0 < m \<and> m < length h \<and>
    (\<forall>j < length (squares (h ! m)). squares (h ! m) ! j = at (squares (h ! (m - 1))) j)
      \<longrightarrow> getMoveLocation h m = Inr None)"
proof (intro conjI impI)
  show "getMoveLocation h 0 = Inr None" by (simp add: getMoveLocation_def)
next
  assume a: "0 < m \<and> m < length h \<and> i < length (squares (h ! m)) \<and>
    squares (h ! m) ! i \<noteq> at (squares (h ! (m - 1))) i \<and>
    (\<forall>j < i. squares (h ! m) ! j = at (squares (h ! (m - 1))) j)"
  then have "m \<noteq> 0" "m - 1 < length h" "m < length h" by auto
  then have g: "getMoveLocation h m = Inr (firstDiff (squares (h ! m)) (squares (h ! (m - 1))) 0)"
    by (simp add: getMoveLocation_def entryAt_def)
  from a have "firstDiff (squares (h ! m)) (squares (h ! (m - 1))) 0
      = Some (''('' @ showNat (i div 3 + 1) @ '', '' @ showNat (i mod 3 + 1) @ '')'')"
    by (intro firstDiff_found) (auto simp: at_def)
  with g show "getMoveLocation h m
      = Inr (Some (''('' @ showNat (i div 3 + 1) @ '', '' @ showNat (i mod 3 + 1) @ '')''))"
    by simp
next
  assume a: "0 < m \<and> m < length h \<and>
    (\<forall>j < length (squares (h ! m)). squares (h ! m) ! j = at (squares (h ! (m - 1))) j)"
  then have "m \<noteq> 0" "m - 1 < length h" "m < length h" by auto
  then have g: "getMoveLocation h m = Inr (firstDiff (squares (h ! m)) (squares (h ! (m - 1))) 0)"
    by (simp add: getMoveLocation_def entryAt_def)
  from a have "firstDiff (squares (h ! m)) (squares (h ! (m - 1))) 0 = None"
    by (intro firstDiff_none) (auto simp: at_def)
  with g show "getMoveLocation h m = Inr None" by simp
qed

theorem getMoveLocation_first_difference_witness:
  "getMoveLocation
     [\<lparr>squares = [Null, Null, Null, Null, Null, Null, Null, Null, Null]\<rparr>,
      \<lparr>squares = [Null, Null, Null, Null, Null, MarkX, Null, Null, Null]\<rparr>] 1
   = Inr (Some ''(2, 3)'') \<and>
   getMoveLocation
     [\<lparr>squares = [Null, Null, Null, Null, Null, Null, Null, Null, Null]\<rparr>,
      \<lparr>squares = [Null, Null, Null, Null, Null, Null, Null, Null, Null]\<rparr>] 1
   = Inr None"
proof -
  let ?a = "[Null, Null, Null, Null, Null, Null, Null, Null, Null]"
  let ?b = "[Null, Null, Null, Null, Null, MarkX, Null, Null, Null]"
  let ?h = "[\<lparr>squares = ?a\<rparr>, \<lparr>squares = ?b\<rparr>]"
  let ?k = "[\<lparr>squares = ?a\<rparr>, \<lparr>squares = ?a\<rparr>]"
  have same: "\<forall>j < 5. ?b ! j = at ?a j"
    by (simp add: at_def nth_Cons' less_Suc_eq)
  have diff: "?b ! 5 \<noteq> at ?a 5"
    by (simp add: at_def)
  have "0 < (1::nat) \<and> 1 < length ?h \<and> 5 < length (squares (?h ! 1)) \<and>
        squares (?h ! 1) ! 5 \<noteq> at (squares (?h ! (1 - 1))) 5 \<and>
        (\<forall>j < 5. squares (?h ! 1) ! j = at (squares (?h ! (1 - 1))) j)"
    using same diff by simp
  with getMoveLocation_first_difference[of ?h 1 5]
  have "getMoveLocation ?h 1
        = Inr (Some (''('' @ showNat (5 div 3 + 1) @ '', '' @ showNat (5 mod 3 + 1) @ '')''))"
    by blast
  moreover have "''('' @ showNat (5 div 3 + 1) @ '', '' @ showNat (5 mod 3 + 1) @ '')'' = ''(2, 3)''"
    by code_simp
  moreover have "0 < (1::nat) \<and> 1 < length ?k \<and>
        (\<forall>j < length (squares (?k ! 1)). squares (?k ! 1) ! j = at (squares (?k ! (1 - 1))) j)"
    by (simp add: at_def)
  with getMoveLocation_first_difference[of ?k 1]
  have "getMoveLocation ?k 1 = Inr None"
    by blast
  ultimately show ?thesis by simp
qed

subsection \<open>The render\<close>

lemma getMoveLocation_returns:
  assumes "m < length h"
  shows "\<exists>loc. getMoveLocation h m = Inr loc"
proof -
  from assms have "m - 1 < length h" by arith
  with assms show ?thesis by (simp add: getMoveLocation_def entryAt_def)
qed

lemma moveItem_returns: "m < length h \<Longrightarrow> \<exists>it. moveItem h step m = Inr it"
  using getMoveLocation_returns[of m h] by (auto simp: moveItem_def Let_def)

lemma collect_returns:
  "\<forall>x \<in> set xs. \<exists>y. f x = Inr y \<Longrightarrow> \<exists>ys. collect (map f xs) = Inr ys \<and> length ys = length xs"
  by (induction xs) auto

lemma moves_returns: "\<exists>ms. moves h step = Inr ms \<and> length ms = length h"
  using collect_returns[of "[0..<length h]" "moveItem h step"] moveItem_returns[of _ h step]
  by (auto simp: moves_def)

lemma Game_returns:
  assumes "stepNumber s < length (history s)"
  shows "\<exists>ms. moves (history s) (stepNumber s) = Inr ms \<and> length ms = length (history s) \<and>
           Game s = Inr \<lparr>boardSquares = squares (history s ! stepNumber s),
                         winningSquares = line (calculateWinner (squares (history s ! stepNumber s))),
                         statusText = status (winner (calculateWinner (squares (history s ! stepNumber s))))
                                        (stepNumber s) (xIsNext s),
                         sortLabel = ''Sort '' @ (if isAscending s then ''Descending'' else ''Ascending''),
                         moveList = sortedMoves (isAscending s) ms\<rparr>"
proof -
  from moves_returns obtain ms where ms: "moves (history s) (stepNumber s) = Inr ms"
    "length ms = length (history s)" by blast
  with assms show ?thesis by (simp add: Game_def entryAt_def Let_def)
qed

text \<open>
  Claim C5. In every reachable state the render returns, and its status text is
  "Winner: X" or "Winner: O" when the winner detector reports that symbol on the
  displayed snapshot; otherwise "It's a draw!" when the step is 9; otherwise
  "Next player: X" on an even step and "Next player: O" on an odd one. The detector
  reports nothing but X, O or no winner.
\<close>

theorem status_text_cases:
  assumes "run initialState es = Some s"
  shows "\<exists>v. Game s = Inr v \<and>
           statusText v =
             (if winner (calculateWinner (squares (history s ! stepNumber s))) = MarkX
                then ''Winner: X''
              else if winner (calculateWinner (squares (history s ! stepNumber s))) = MarkO
                then ''Winner: O''
              else if stepNumber s = 9 then ''It's a draw!''
              else if even (stepNumber s) then ''Next player: X''
              else ''Next player: O'') \<and>
           (winner (calculateWinner (squares (history s ! stepNumber s))) \<in> {MarkX, MarkO, Null})"
proof -
  from reachable_wellFormed[OF assms] have wf: "wellFormed s" .
  then have n: "stepNumber s < length (history s)" and par: "xIsNext s = even (stepNumber s)"
    by (simp_all add: wellFormed_def)
  let ?w = "winner (calculateWinner (squares (history s ! stepNumber s)))"
  have w: "?w \<in> {MarkX, MarkO, Null}"
    using winner_Null_or_truthy[of "squares (history s ! stepNumber s)"] by (cases ?w) auto
  from Game_returns[OF n] obtain v where v: "Game s = Inr v"
    "statusText v = status ?w (stepNumber s) (xIsNext s)" by auto
  from w par have "status ?w (stepNumber s) (xIsNext s) =
             (if ?w = MarkX then ''Winner: X''
              else if ?w = MarkO then ''Winner: O''
              else if stepNumber s = 9 then ''It's a draw!''
              else if even (stepNumber s) then ''Next player: X''
              else ''Next player: O'')"
    by (auto simp: status_def)
  with v w show ?thesis by simp
qed

theorem status_text_cases_witness:
  "map_option (\<lambda>s. map_sum id statusText (Game s))
     (run initialState [CellClick 0, CellClick 4, CellClick 1, CellClick 7, CellClick 2])
   = Some (Inr ''Winner: X'') \<and>
   map_option (\<lambda>s. map_sum id statusText (Game s))
     (run initialState [CellClick 0, CellClick 1, CellClick 2, CellClick 4, CellClick 3,
                        CellClick 5, CellClick 7, CellClick 6, CellClick 8])
   = Some (Inr ''It's a draw!'') \<and>
   map_option (\<lambda>s. map_sum id statusText (Game s))
     (run initialState [CellClick 4])
   = Some (Inr ''Next player: O'')"
proof -
  define s where
    "s = the (run initialState [CellClick 0, CellClick 4, CellClick 1, CellClick 7, CellClick 2])"
  define t where
    "t = the (run initialState [CellClick 0, CellClick 1, CellClick 2, CellClick 4, CellClick 3,
                        CellClick 5, CellClick 7, CellClick 6, CellClick 8])"
  define u where "u = the (run initialState [CellClick 4])"
  have rs: "run initialState [CellClick 0, CellClick 4, CellClick 1, CellClick 7, CellClick 2] = Some s"
    unfolding s_def by code_simp
  have rt: "run initialState [CellClick 0, CellClick 1, CellClick 2, CellClick 4, CellClick 3,
                        CellClick 5, CellClick 7, CellClick 6, CellClick 8] = Some t"
    unfolding t_def by code_simp
  have ru: "run initialState [CellClick 4] = Some u"
    unfolding u_def by code_simp
  have es: "winner (calculateWinner (squares (history s ! stepNumber s))) = MarkX"
    unfolding s_def by code_simp
  have et: "winner (calculateWinner (squares (history t ! stepNumber t))) = Null" "stepNumber t = 9"
    unfolding t_def by code_simp+
  have eu: "winner (calculateWinner (squares (history u ! stepNumber u))) = Null" "stepNumber u = 1"
    unfolding u_def by code_simp+
  from status_text_cases[OF rs] es have "map_sum id statusText (Game s) = Inr ''Winner: X''"
    by auto
  moreover from status_text_cases[OF rt] et
  have "map_sum id statusText (Game t) = Inr ''It's a draw!''"
    by auto
  moreover from status_text_cases[OF ru] eu
  have "map_sum id statusText (Game u) = Inr ''Next player: O''"
    by auto
  ultimately show ?thesis using rs rt ru by simp
qed

text \<open>
  Claim C8. In every reachable state the render returns before and after a toggle of
  the sort order; the toggle flips the flag, the move list shown after it is the
  reverse of the one shown before (which has one entry per history index), and the
  history, the step, the turn flag, the board shown and the status text are unchanged.
\<close>

theorem toggleSort_reverses_move_list:
  assumes "run initialState es = Some s"
  shows "\<exists>v v'. Game s = Inr v \<and> Game (toggleSort s) = Inr v' \<and>
           moveList v' = rev (moveList v) \<and>
           length (moveList v) = length (history s) \<and>
           boardSquares v' = boardSquares v \<and> statusText v' = statusText v \<and>
           isAscending (toggleSort s) = (\<not> isAscending s) \<and>
           history (toggleSort s) = history s \<and>
           stepNumber (toggleSort s) = stepNumber s \<and>
           xIsNext (toggleSort s) = xIsNext s"
proof -
  from reachable_wellFormed[OF assms] have n: "stepNumber s < length (history s)"
    by (simp add: wellFormed_def)
  then have n': "stepNumber (toggleSort s) < length (history (toggleSort s))"
    by (simp add: toggleSort_def)
  from Game_returns[OF n] Game_returns[OF n'] show ?thesis
    by (auto simp: toggleSort_def sortedMoves_def)
qed

theorem toggleSort_reverses_move_list_witness:
  "map_option
     (\<lambda>s. (map_sum id moveList (Game s), map_sum id moveList (Game (toggleSort s)),
           isAscending s, isAscending (toggleSort s)))
     (run initialState [CellClick 0, CellClick 4])
   = Some (Inr [GoTo ''Go to game start'' 0, GoTo ''Go to move #1 (1, 1)'' 1,
                Here ''You are at move #2 (2, 2)''],
           Inr [Here ''You are at move #2 (2, 2)'', GoTo ''Go to move #1 (1, 1)'' 1,
                GoTo ''Go to game start'' 0],
           True, False)"
proof -
  define s where "s = the (run initialState [CellClick 0, CellClick 4])"
  have r: "run initialState [CellClick 0, CellClick 4] = Some s"
    unfolding s_def by code_simp
  have e: "map_sum id moveList (Game s)
             = Inr [GoTo ''Go to game start'' 0, GoTo ''Go to move #1 (1, 1)'' 1,
                    Here ''You are at move #2 (2, 2)'']"
    "isAscending s = True"
    unfolding s_def by code_simp+
  from toggleSort_reverses_move_list[OF r] obtain v v' where v:
    "Game s = Inr v" "Game (toggleSort s) = Inr v'" "moveList v' = rev (moveList v)"
    "isAscending (toggleSort s) = (\<not> isAscending s)"
    by blast
  with e have "map_sum id moveList (Game (toggleSort s))
             = Inr [Here ''You are at move #2 (2, 2)'', GoTo ''Go to move #1 (1, 1)'' 1,
                    GoTo ''Go to game start'' 0]"
    by simp
  with r e v show ?thesis by simp
qed

text \<open>
  Claim C9. A jump stores whatever index it is given, with no range check. As long as
  every jump carries an index below the length of the history, \<open>history[stepNumber]\<close>
  is in bounds in every reachable state. A jump to an index at or beyond the length
  makes that read \<open>undefined\<close>, and the next render throws a \<open>TypeError\<close>.
\<close>

theorem jumpTo_unchecked:
  "stepNumber (jumpTo s0 k) = k \<and>
   (run initialState es = Some s
      \<longrightarrow> stepNumber s < length (history s) \<and>
          entryAt (history s) (stepNumber s) = Some (history s ! stepNumber s)) \<and>
   (length (history s0) \<le> k
      \<longrightarrow> entryAt (history (jumpTo s0 k)) (stepNumber (jumpTo s0 k)) = None \<and>
          Game (jumpTo s0 k) = Inl TypeError)"
proof (intro conjI impI)
  show "stepNumber (jumpTo s0 k) = k" by (simp add: jumpTo_def)
next
  assume "run initialState es = Some s"
  from reachable_wellFormed[OF this] show "stepNumber s < length (history s)"
    by (simp add: wellFormed_def)
  then show "entryAt (history s) (stepNumber s) = Some (history s ! stepNumber s)"
    by (simp add: entryAt_def)
next
  assume "length (history s0) \<le> k"
  then show "entryAt (history (jumpTo s0 k)) (stepNumber (jumpTo s0 k)) = None"
    by (simp add: jumpTo_def entryAt_def)
  then show "Game (jumpTo s0 k) = Inl TypeError" by (simp add: Game_def)
qed

theorem jumpTo_unchecked_witness:
  "map_option (\<lambda>s. (stepNumber s, length (history s), entryAt (history s) (stepNumber s) = None))
     (run initialState [CellClick 0, HistoryClick 0, CellClick 3, SortClick])
   = Some (1, 2, False) \<and>
   length (history initialState) = 1 \<and>
   stepNumber (jumpTo initialState 1) = 1 \<and>
   entryAt (history (jumpTo initialState 1)) (stepNumber (jumpTo initialState 1)) = None \<and>
   Game (jumpTo initialState 1) = Inl TypeError"
proof -
  define s where "s = the (run initialState [CellClick 0, HistoryClick 0, CellClick 3, SortClick])"
  have r: "run initialState [CellClick 0, HistoryClick 0, CellClick 3, SortClick] = Some s"
    unfolding s_def by code_simp
  have e: "stepNumber s = 1" "length (history s) = 2"
    unfolding s_def by code_simp+
  have l: "length (history initialState) = 1" by (simp add: initialState_def)
  then have l1: "length (history initialState) \<le> 1" by simp
  from jumpTo_unchecked[of initialState 1 "[CellClick 0, HistoryClick 0, CellClick 3, SortClick]" s] r l1
  have "stepNumber (jumpTo initialState 1) = 1"
    and "entryAt (history s) (stepNumber s) = Some (history s ! stepNumber s)"
    and "entryAt (history (jumpTo initialState 1)) (stepNumber (jumpTo initialState 1)) = None"
    and "Game (jumpTo initialState 1) = Inl TypeError"
    by blast+
  with r e l show ?thesis by simp
qed

subsection \<open>The shape of the history\<close>

lemma filter_all:
  assumes "length (filter P xs) = length xs"
  shows "\<forall>x \<in> set xs. P x"
proof -
  have "length (filter P xs) + length (filter (\<lambda>x. \<not> P x) xs) = length xs"
    by (rule sum_length_filter_compl)
  with assms have "filter (\<lambda>x. \<not> P x) xs = []" by simp
  then show ?thesis by (simp add: filter_empty_conv)
qed

text \<open>
  Claim C10. In every reachable state the history is non-empty, snapshot 0 is the
  all-empty board, and every snapshot \<open>k\<close> has 9 cells of which exactly \<open>k\<close> are
  non-empty. So at step 9 every cell of the displayed board holds X or O, and a click
  on any of the 9 cells returns the state unchanged, winner or not.
\<close>

theorem snapshot_k_has_k_marks:
  assumes "run initialState es = Some s"
  shows "history s \<noteq> [] \<and>
         squares (history s ! 0) = replicate 9 Null \<and>
         (\<forall>k < length (history s).
            length (squares (history s ! k)) = 9 \<and>
            length (filter (\<lambda>v. v \<noteq> Null) (squares (history s ! k))) = k) \<and>
         (stepNumber s = 9 \<longrightarrow>
            (\<forall>i < 9. squares (history s ! stepNumber s) ! i \<in> {MarkX, MarkO} \<and>
                     handleClick s i = Inr s))"
proof -
  from reachable_wellFormed[OF assms] have wf: "wellFormed s" .
  then have n: "stepNumber s < length (history s)" by (simp add: wellFormed_def)
  have ok: "snapshotOk k (history s ! k)" if "k < length (history s)" for k
    using wf that by (simp add: wellFormed_def)
  have cnt: "length (squares (history s ! k)) = 9 \<and>
      length (filter (\<lambda>v. v \<noteq> Null) (squares (history s ! k))) = k"
    if k: "k < length (history s)" for k
  proof -
    from ok[OF k] have u: "Undefined \<notin> set (squares (history s ! k))"
      and c: "length (filter truthy (squares (history s ! k))) = k"
      and l: "length (squares (history s ! k)) = 9"
      by (simp_all add: snapshotOk_def)
    have "filter (\<lambda>v. v \<noteq> Null) (squares (history s ! k)) = filter truthy (squares (history s ! k))"
    proof (rule filter_cong[OF refl])
      fix v assume "v \<in> set (squares (history s ! k))"
      with u show "(v \<noteq> Null) = truthy v" by (cases v) auto
    qed
    with c l show ?thesis by simp
  qed
  have full: "\<forall>i < 9. squares (history s ! stepNumber s) ! i \<in> {MarkX, MarkO} \<and>
                     handleClick s i = Inr s" if nine: "stepNumber s = 9"
  proof (intro allI impI)
    fix i :: nat assume i: "i < 9"
    let ?b = "squares (history s ! stepNumber s)"
    from ok[OF n] nine have c: "length (filter truthy ?b) = length ?b" and l: "length ?b = 9"
      by (simp_all add: snapshotOk_def)
    from c have "\<forall>x \<in> set ?b. truthy x" by (rule filter_all)
    moreover from i l have "?b ! i \<in> set ?b" by (intro nth_mem) simp
    ultimately have t: "truthy (?b ! i)" by (rule bspec)
    with i l have "truthy (at ?b i)" by (simp add: at_def)
    with n have "handleClick s i = Inr s" by (simp add: handleClick_in_range)
    with t show "?b ! i \<in> {MarkX, MarkO} \<and> handleClick s i = Inr s"
      by (simp add: truthy_iff)
  qed
  show ?thesis
  proof (intro conjI)
    from n show "history s \<noteq> []" by auto
    from wf show "squares (history s ! 0) = replicate 9 Null" by (simp add: wellFormed_def)
    from cnt show "\<forall>k < length (history s).
            length (squares (history s ! k)) = 9 \<and>
            length (filter (\<lambda>v. v \<noteq> Null) (squares (history s ! k))) = k"
      by (intro allI impI)
    from full show "stepNumber s = 9 \<longrightarrow>
            (\<forall>i < 9. squares (history s ! stepNumber s) ! i \<in> {MarkX, MarkO} \<and>
                     handleClick s i = Inr s)"
      by (intro impI)
  qed
qed

theorem snapshot_k_has_k_marks_witness:
  "map_option
     (\<lambda>s. (stepNumber s, length (history s),
           map (\<lambda>e. length (filter (\<lambda>v. v \<noteq> Null) (squares e))) (history s),
           squares (history s ! 0),
           squares (history s ! 9),
           winner (calculateWinner (squares (history s ! 9))),
           map (\<lambda>i. handleClick s i = Inr s) [0 ..< 9]))
     (run initialState [CellClick 0, CellClick 1, CellClick 2, CellClick 4, CellClick 3,
                        CellClick 5, CellClick 7, CellClick 6, CellClick 8])
   = Some (9, 10, [0, 1, 2, 3, 4, 5, 6, 7, 8, 9],
           [Null, Null, Null, Null, Null, Null, Null, Null, Null],
           [MarkX, MarkO, MarkX, MarkX, MarkO, MarkO, MarkO, MarkX, MarkX],
           Null,
           [True, True, True, True, True, True, True, True, True])"
proof -
  define s where
    "s = the (run initialState [CellClick 0, CellClick 1, CellClick 2, CellClick 4, CellClick 3,
                        CellClick 5, CellClick 7, CellClick 6, CellClick 8])"
  have r: "run initialState [CellClick 0, CellClick 1, CellClick 2, CellClick 4, CellClick 3,
                        CellClick 5, CellClick 7, CellClick 6, CellClick 8] = Some s"
    unfolding s_def by code_simp
  have e: "stepNumber s = 9" "length (history s) = 10"
    "map (\<lambda>e. length (filter (\<lambda>v. v \<noteq> Null) (squares e))) (history s)
       = [0, 1, 2, 3, 4, 5, 6, 7, 8, 9]"
    "squares (history s ! 9) = [MarkX, MarkO, MarkX, MarkX, MarkO, MarkO, MarkO, MarkX, MarkX]"
    "winner (calculateWinner (squares (history s ! 9))) = Null"
    unfolding s_def by code_simp+
  from snapshot_k_has_k_marks[OF r] e(1)
  have z: "squares (history s ! 0) = replicate 9 Null"
    and ign: "\<forall>i < 9. handleClick s i = Inr s"
    by simp_all
  have "[0 ..< 9] = [0, 1, 2, 3, 4, 5, 6, 7, 8 :: nat]" by code_simp
  with ign have "map (\<lambda>i. handleClick s i = Inr s) [0 ..< 9]
      = [True, True, True, True, True, True, True, True, True]"
    by simp
  moreover have "replicate 9 Null = [Null, Null, Null, Null, Null, Null, Null, Null, Null]"
    by code_simp
  ultimately show ?thesis using r e z by simp
qed

end
